theory Spec2Isabelle
  imports Complex_Main
begin

section \<open>The wind-turbine dashboard of App.tsx\<close>

text \<open>
  The component \<^verbatim>\<open>App\<close> keeps seven pieces of React state. They change in two places
  only: the callback of \<^verbatim>\<open>setInterval\<close> (one timer tick) and the \<^verbatim>\<open>onChange\<close> handler
  of the range input (the manual override). What is drawn is a function of the state.

  A JavaScript number is modelled as a real number and \<^verbatim>\<open>>\<close> as the exact order. The
  wind speed, the blade angles and the entries of the buffers are taken for the decimals
  they print as (\<open>0.1\<close> is the tenth itself), and the arithmetic that yields them is
  exact. The energy accumulator is a long running sum, where the rounding of every
  addition shows: its line is computed in IEEE binary64, every operation rounded to the
  nearest double by \<open>fl\<close>. NaN and the infinities are outside the model. The two calls of
  \<^verbatim>\<open>Math.random()\<close> of a tick are parameters of the tick. The event loop runs one
  callback at a time, and all the state updates of one callback are taken as one step.
  The draws of the examples are binary fractions, chosen so that the program in doubles
  prints the same decimals as the model computes.
\<close>

subsection \<open>Numbers\<close>

text \<open>
  \<^verbatim>\<open>+(x).toFixed(f)\<close>: \<^verbatim>\<open>toFixed\<close> prints the integer \<open>n\<close> for which \<open>n / 10^f\<close> is
  closest to \<open>x\<close> (the larger \<open>n\<close> of two), working on \<open>-x\<close> under a minus sign when
  \<open>x < 0\<close>, and prints \<open>x\<close> itself from \<open>10^21\<close> on; the unary plus reads the digits back.
\<close>

definition toFixed :: "nat \<Rightarrow> real \<Rightarrow> real" where
  "toFixed f x =
     (if 10 ^ 21 \<le> \<bar>x\<bar> then x
      else if x < 0 then - (of_int \<lfloor>- x * 10 ^ f + 1 / 2\<rfloor> / 10 ^ f)
      else of_int \<lfloor>x * 10 ^ f + 1 / 2\<rfloor> / 10 ^ f)"

subsection \<open>Binary64\<close>

text \<open>
  Rounding of a real to the nearest integer, to the even one of two nearest: the rule
  of IEEE 754 that JavaScript's \<^verbatim>\<open>+\<close>, \<^verbatim>\<open>*\<close> and \<^verbatim>\<open>/\<close> follow.
\<close>

definition round_even :: "real \<Rightarrow> int" where
  "round_even y =
     (let n = \<lfloor>y\<rfloor>; d = y - of_int n
      in if d < 1 / 2 then n else if 1 / 2 < d then n + 1 else if even n then n else n + 1)"

text \<open>
  The binary exponent of a positive \<open>x\<close>, that is the \<open>e\<close> with \<open>2^e \<le> x < 2^(e+1)\<close>,
  found by halving or doubling \<open>x\<close> at most \<open>k\<close> times (and \<open>k\<close> or \<open>-k\<close> beyond that).
\<close>

fun binade :: "nat \<Rightarrow> real \<Rightarrow> int" where
  "binade 0 x = 0"
| "binade (Suc k) x =
     (if 2 \<le> x then binade k (x / 2) + 1
      else if x < 1 then binade k (x * 2) - 1
      else 0)"

text \<open>
  The exponent a double near \<open>a > 0\<close> has: not below \<open>-1022\<close>, where the subnormal
  numbers begin. The spacing of the doubles there: 53 significant bits.
\<close>

definition expo :: "real \<Rightarrow> int" where
  "expo a = max (binade 1100 a) (- 1022)"

definition ulp :: "real \<Rightarrow> real" where
  "ulp a = 2 powi (expo a - 52)"

text \<open>
  The double nearest to \<open>x\<close>: what an arithmetic operation with the exact result \<open>x\<close>
  returns, and what a decimal \<open>x\<close> is read as. Results from \<open>2^1024\<close> on, which the
  program would round to \<^verbatim>\<open>Infinity\<close>, are outside the model.
\<close>

definition fl :: "real \<Rightarrow> real" where
  "fl x =
     (if x = 0 then 0
      else sgn x * (of_int (round_even (\<bar>x\<bar> / ulp \<bar>x\<bar>)) * ulp \<bar>x\<bar>))"

subsection \<open>Arrays\<close>

text \<open>\<^verbatim>\<open>xs.slice(-n)\<close> for \<open>n > 0\<close>: the last \<open>n\<close> elements, all of them when there are fewer.\<close>

definition slice_last :: "nat \<Rightarrow> 'a list \<Rightarrow> 'a list" where
  "slice_last n xs = drop (length xs - n) xs"

text \<open>
  The updater the tick hands to \<^verbatim>\<open>setPowerData\<close>, \<^verbatim>\<open>setWindHistory\<close> and \<^verbatim>\<open>setLabels\<close>:
  \<^verbatim>\<open>const updated = [...prev, v]; return updated.length > 20 ? updated.slice(-20) : updated;\<close>
\<close>

definition push_capped :: "'a list \<Rightarrow> 'a \<Rightarrow> 'a list" where
  "push_capped prev v =
     (let updated = prev @ [v]
      in if length updated > 20 then slice_last 20 updated else updated)"

subsection \<open>State\<close>

record app_state =
  windSpeed :: real
  bladeAngles :: "real list"
  powerData :: "real list"
  windHistory :: "real list"
  labels :: "string list"
  totalEnergy :: real
  windDirection :: real

text \<open>The arguments of the seven \<^verbatim>\<open>useState\<close> calls.\<close>

definition init :: app_state where
  "init = \<lparr>windSpeed = 0, bladeAngles = [0, 0, 0], powerData = [], windHistory = [],
           labels = [], totalEnergy = 0, windDirection = 0\<rparr>"

subsection \<open>The timer tick\<close>

text \<open>\<^verbatim>\<open>const speed = +(Math.random() * 15).toFixed(1);\<close> with the draw \<open>r\<close>.\<close>

definition gen_speed :: "real \<Rightarrow> real" where
  "gen_speed r = toFixed 1 (r * 15)"

text \<open>\<^verbatim>\<open>const direction = Math.floor(Math.random() * 360);\<close> with the draw \<open>r\<close>.\<close>

definition gen_direction :: "real \<Rightarrow> real" where
  "gen_direction r = of_int \<lfloor>r * 360\<rfloor>"

text \<open>
  The callback. In the last line \<open>fl speed\<close> is the double the program holds for the
  decimal \<open>speed\<close>; \<^verbatim>\<open>prev + (speed * 1.5) / 60\<close> multiplies, divides and adds in doubles
  (1.5 and 60 are doubles).
\<close>

definition tick :: "real \<Rightarrow> real \<Rightarrow> app_state \<Rightarrow> app_state" where
  "tick r1 r2 st =
     (let speed = gen_speed r1;
          direction = gen_direction r2;
          angles = [speed * 2, speed * 2 + 5, speed * 2 - 5]
      in st\<lparr>windSpeed := speed,
            windDirection := direction,
            bladeAngles := angles,
            powerData := push_capped (powerData st) (toFixed 1 (speed * 1.5)),
            windHistory := push_capped (windHistory st) speed,
            labels := push_capped (labels st) '''',
            totalEnergy := fl (totalEnergy st + fl (fl (fl speed * 1.5) / 60))\<rparr>)"

subsection \<open>The manual override\<close>

text \<open>\<^verbatim>\<open>onChange={(e) => setWindSpeed(Number(e.target.value))}\<close>, \<open>v\<close> the number read.\<close>

definition override :: "real \<Rightarrow> app_state \<Rightarrow> app_state" where
  "override v st = st\<lparr>windSpeed := v\<rparr>"

text \<open>
  The values the control can deliver: \<^verbatim>\<open>min="0" max="25" step="0.1"\<close>, that is the
  tenths from 0 to 25.
\<close>

definition slider_value :: "real \<Rightarrow> bool" where
  "slider_value v \<longleftrightarrow> 0 \<le> v \<and> v \<le> 25 \<and> of_int \<lfloor>v * 10\<rfloor> = v * 10"

subsection \<open>What is drawn\<close>

text \<open>\<^verbatim>\<open>{windSpeed > 20 && (...Overload Risk...)}\<close>\<close>

definition overloadWarning :: "app_state \<Rightarrow> bool" where
  "overloadWarning st \<longleftrightarrow> windSpeed st > 20"

text \<open>\<^verbatim>\<open>const bladeWarning = bladeAngles.some((a) => a > 90);\<close>\<close>

definition bladeWarning :: "app_state \<Rightarrow> bool" where
  "bladeWarning st \<longleftrightarrow> list_ex (\<lambda>a. a > 90) (bladeAngles st)"

subsection \<open>Runs\<close>

datatype event = Tick real real | Override real

fun step :: "app_state \<Rightarrow> event \<Rightarrow> app_state" where
  "step st (Tick r1 r2) = tick r1 r2 st"
| "step st (Override v) = override v st"

text \<open>\<^verbatim>\<open>Math.random()\<close> returns a number in \<open>[0, 1)\<close>.\<close>

fun valid_event :: "event \<Rightarrow> bool" where
  "valid_event (Tick r1 r2) \<longleftrightarrow> 0 \<le> r1 \<and> r1 < 1 \<and> 0 \<le> r2 \<and> r2 < 1"
| "valid_event (Override v) \<longleftrightarrow> slider_value v"

definition run :: "app_state \<Rightarrow> event list \<Rightarrow> app_state" where
  "run st es = foldl step st es"

text \<open>The states the application can be in: those a run of valid events reaches.\<close>

inductive reachable :: "app_state \<Rightarrow> bool" where
  start: "reachable init"
| after: "reachable st \<Longrightarrow> valid_event e \<Longrightarrow> reachable (step st e)"

text \<open>
  What the ticks of a run appended to the three buffers, oldest first: the wind speeds,
  the powers and the labels.
\<close>

fun tick_speeds :: "event list \<Rightarrow> real list" where
  "tick_speeds [] = []"
| "tick_speeds (Tick r1 r2 # es) = gen_speed r1 # tick_speeds es"
| "tick_speeds (Override v # es) = tick_speeds es"

definition tick_powers :: "event list \<Rightarrow> real list" where
  "tick_powers es = map (\<lambda>speed. toFixed 1 (speed * 1.5)) (tick_speeds es)"

definition tick_labels :: "event list \<Rightarrow> string list" where
  "tick_labels es = map (\<lambda>speed. '''') (tick_speeds es)"

text \<open>
  A run of 21 ticks with 21 different draws (the 64ths listed), and one override in the
  middle.
\<close>

definition ticks21 :: "event list" where
  "ticks21 =
     map (\<lambda>j. Tick (of_nat j / 64) (of_nat j / 64)) [0, 1, 2, 4, 5, 6, 7, 9, 11, 12]
     @ [Override 22]
     @ map (\<lambda>j. Tick (of_nat j / 64) (of_nat j / 64))
         [13, 15, 16, 17, 18, 19, 20, 21, 22, 23, 24]"

section \<open>Properties\<close>

subsection \<open>The history buffers\<close>

lemma length_push_capped:
  "length (push_capped prev v) = min 20 (Suc (length prev))"
  by (simp add: push_capped_def slice_last_def Let_def)

lemma tick_buffers:
  "powerData (tick r1 r2 st) = push_capped (powerData st) (toFixed 1 (gen_speed r1 * 1.5))"
  "windHistory (tick r1 r2 st) = push_capped (windHistory st) (gen_speed r1)"
  "labels (tick r1 r2 st) = push_capped (labels st) ''''"
  by (simp_all add: tick_def Let_def)

lemma override_buffers:
  "powerData (override v st) = powerData st"
  "windHistory (override v st) = windHistory st"
  "labels (override v st) = labels st"
  by (simp_all add: override_def)

lemma step_buffer_lengths:
  assumes "length (powerData st) = length (windHistory st)"
    and "length (windHistory st) = length (labels st)"
    and "length (labels st) \<le> 20"
  shows "length (powerData (step st e)) = length (windHistory (step st e))
    \<and> length (windHistory (step st e)) = length (labels (step st e))
    \<and> length (labels (step st e)) \<le> 20"
  using assms
  by (cases e) (simp_all add: tick_buffers override_buffers length_push_capped)

text \<open>
  C1: in every reachable state the power series, the wind-speed series and the label
  series have the same length, and that length is at most 20.
\<close>

theorem buffers_equal_length_le_20:
  assumes "reachable st"
  shows "length (powerData st) = length (windHistory st)
    \<and> length (windHistory st) = length (labels st)
    \<and> length (labels st) \<le> 20"
  using assms
proof (induction rule: reachable.induct)
  case start
  show ?case by (simp add: init_def)
next
  case (after st e)
  then show ?case by (intro step_buffer_lengths) simp_all
qed

theorem buffers_equal_length_le_20_witness:
  "length (powerData (step init (Tick (1 / 2) (1 / 4)))) = 1
    \<and> length (windHistory (step init (Tick (1 / 2) (1 / 4)))) = 1
    \<and> length (labels (step init (Tick (1 / 2) (1 / 4)))) = 1"
proof -
  have "reachable (step init (Tick (1 / 2) (1 / 4)))"
    by (rule reachable.after [OF reachable.start]) simp
  from buffers_equal_length_le_20 [OF this] show ?thesis
    by (simp add: tick_buffers length_push_capped init_def)
qed

subsection \<open>First in, first out\<close>

lemma slice_last_push:
  "push_capped (slice_last 20 hist) v = slice_last 20 (hist @ [v])"
proof (cases "20 \<le> length hist")
  case True
  then have "Suc (length hist - 20) = length hist - 19" by arith
  with True show ?thesis
    by (simp add: push_capped_def slice_last_def Let_def)
next
  case False
  then show ?thesis
    by (simp add: push_capped_def slice_last_def Let_def)
qed

lemma run_snoc: "run st (es @ [e]) = step (run st es) e"
  by (simp add: run_def)

lemma tick_speeds_append: "tick_speeds (es @ fs) = tick_speeds es @ tick_speeds fs"
  by (induction es rule: tick_speeds.induct) simp_all

lemma windHistory_run:
  "windHistory (run init es) = slice_last 20 (tick_speeds es)"
proof (induction es rule: rev_induct)
  case Nil
  show ?case by (simp add: run_def init_def slice_last_def)
next
  case (snoc e es)
  show ?case
  proof (cases e)
    case (Tick r1 r2)
    then show ?thesis
      by (simp add: run_snoc tick_speeds_append tick_buffers snoc.IH slice_last_push)
  next
    case (Override v)
    then show ?thesis
      by (simp add: run_snoc tick_speeds_append override_buffers snoc.IH)
  qed
qed

lemma powerData_run:
  "powerData (run init es) = slice_last 20 (tick_powers es)"
proof (induction es rule: rev_induct)
  case Nil
  show ?case by (simp add: run_def init_def slice_last_def tick_powers_def)
next
  case (snoc e es)
  note IH = snoc.IH [unfolded tick_powers_def]
  show ?case
  proof (cases e)
    case (Tick r1 r2)
    then show ?thesis
      by (simp add: run_snoc tick_powers_def tick_speeds_append tick_buffers IH
          slice_last_push)
  next
    case (Override v)
    then show ?thesis
      by (simp add: run_snoc tick_powers_def tick_speeds_append override_buffers IH)
  qed
qed

lemma labels_run:
  "labels (run init es) = slice_last 20 (tick_labels es)"
proof (induction es rule: rev_induct)
  case Nil
  show ?case by (simp add: run_def init_def slice_last_def tick_labels_def)
next
  case (snoc e es)
  note IH = snoc.IH [unfolded tick_labels_def]
  show ?case
  proof (cases e)
    case (Tick r1 r2)
    then show ?thesis
      by (simp add: run_snoc tick_labels_def tick_speeds_append tick_buffers IH
          slice_last_push)
  next
    case (Override v)
    then show ?thesis
      by (simp add: run_snoc tick_labels_def tick_speeds_append override_buffers IH)
  qed
qed

text \<open>The reachable states are the states at the end of the runs of valid events.\<close>

lemma reachable_run:
  "reachable st \<longleftrightarrow> (\<exists>es. list_all valid_event es \<and> st = run init es)"
proof
  assume "reachable st"
  then show "\<exists>es. list_all valid_event es \<and> st = run init es"
  proof (induction rule: reachable.induct)
    case start
    have "list_all valid_event [] \<and> init = run init []" by (simp add: run_def)
    then show ?case by blast
  next
    case (after st e)
    then obtain es where "list_all valid_event es" "st = run init es" by blast
    then have "list_all valid_event (es @ [e]) \<and> step st e = run init (es @ [e])"
      using after.hyps(2) by (simp add: run_snoc)
    then show ?case by blast
  qed
next
  assume "\<exists>es. list_all valid_event es \<and> st = run init es"
  then obtain es where "list_all valid_event es" "st = run init es" by blast
  then show "reachable st"
  proof (induction es arbitrary: st rule: rev_induct)
    case Nil
    then show ?case by (simp add: run_def reachable.start)
  next
    case (snoc e es)
    then show ?case by (simp add: run_snoc reachable.after)
  qed
qed

text \<open>
  C2: after more than 20 ticks, each of the three buffers holds exactly the entries of
  the most recent 20 ticks, oldest first: of the \<open>n\<close> entries the ticks of the run
  produced, the first \<open>n - 20\<close> are gone and the others stand in their order.
\<close>

theorem buffers_hold_last_20:
  assumes "20 < length (tick_speeds es)"
  shows "windHistory (run init es) = drop (length (tick_speeds es) - 20) (tick_speeds es)
    \<and> powerData (run init es) = drop (length (tick_powers es) - 20) (tick_powers es)
    \<and> labels (run init es) = drop (length (tick_labels es) - 20) (tick_labels es)
    \<and> length (windHistory (run init es)) = 20
    \<and> length (powerData (run init es)) = 20
    \<and> length (labels (run init es)) = 20"
  using assms
  by (simp add: windHistory_run powerData_run labels_run slice_last_def
      tick_powers_def tick_labels_def)

theorem buffers_hold_last_20_witness:
  "length (tick_speeds ticks21) = 21
    \<and> windHistory (run init ticks21) =
        [0.2, 0.5, 0.9, 1.2, 1.4, 1.6, 2.1, 2.6, 2.8, 3,
         3.5, 3.8, 4, 4.2, 4.5, 4.7, 4.9, 5.2, 5.4, 5.6]
    \<and> powerData (run init ticks21) =
        [0.3, 0.8, 1.4, 1.8, 2.1, 2.4, 3.2, 3.9, 4.2, 4.5,
         5.3, 5.7, 6, 6.3, 6.8, 7.1, 7.4, 7.8, 8.1, 8.4]
    \<and> labels (run init ticks21) = replicate 20 ''''"
proof -
  have n: "length (tick_speeds ticks21) = 21"
    by code_simp
  have s: "drop 1 (tick_speeds ticks21) =
      [0.2, 0.5, 0.9, 1.2, 1.4, 1.6, 2.1, 2.6, 2.8, 3,
       3.5, 3.8, 4, 4.2, 4.5, 4.7, 4.9, 5.2, 5.4, 5.6]"
    by code_simp
  have p: "drop 1 (tick_powers ticks21) =
      [0.3, 0.8, 1.4, 1.8, 2.1, 2.4, 3.2, 3.9, 4.2, 4.5,
       5.3, 5.7, 6, 6.3, 6.8, 7.1, 7.4, 7.8, 8.1, 8.4]"
    by code_simp
  have l: "drop 1 (tick_labels ticks21) = replicate 20 ''''"
    by code_simp
  have "20 < length (tick_speeds ticks21)"
    using n by simp
  from buffers_hold_last_20 [OF this] n s p l show ?thesis
    by (simp add: tick_powers_def tick_labels_def)
qed

subsection \<open>What a tick and an override write\<close>

lemma tick_fields:
  "windSpeed (tick r1 r2 st) = gen_speed r1"
  "windDirection (tick r1 r2 st) = gen_direction r2"
  "bladeAngles (tick r1 r2 st) =
     [gen_speed r1 * 2, gen_speed r1 * 2 + 5, gen_speed r1 * 2 - 5]"
  "totalEnergy (tick r1 r2 st) =
     fl (totalEnergy st + fl (fl (fl (gen_speed r1) * 1.5) / 60))"
  by (simp_all add: tick_def Let_def)

lemma override_fields:
  "windSpeed (override v st) = v"
  "windDirection (override v st) = windDirection st"
  "bladeAngles (override v st) = bladeAngles st"
  "totalEnergy (override v st) = totalEnergy st"
  by (simp_all add: override_def)

lemma gen_speed_bounds:
  assumes "0 \<le> r" and "r < 1"
  shows "0 \<le> gen_speed r" and "gen_speed r \<le> 15"
  using assms unfolding gen_speed_def toFixed_def by auto

lemma gen_speed_tenth:
  assumes "0 \<le> r" and "r < 1"
  shows "\<exists>n::int. gen_speed r = of_int n / 10 \<and> 0 \<le> n \<and> n \<le> 150"
proof -
  let ?n = "\<lfloor>r * 15 * 10 + 1 / 2\<rfloor>"
  have "gen_speed r = of_int ?n / 10"
    using assms unfolding gen_speed_def toFixed_def by simp
  moreover have "0 \<le> ?n" "?n \<le> 150"
    using assms by (simp_all add: floor_le_iff)
  ultimately show ?thesis by blast
qed

lemma gen_direction_bounds:
  assumes "0 \<le> r" and "r < 1"
  shows "0 \<le> \<lfloor>r * 360\<rfloor>" and "\<lfloor>r * 360\<rfloor> < 360"
  using assms by (auto simp: floor_less_iff)

lemma reachable_tick_half: "reachable (step init (Tick (1 / 2) (1 / 4)))"
  by (rule reachable.after [OF reachable.start]) simp

lemma reachable_tick_top: "reachable (step init (Tick (511 / 512) (511 / 512)))"
  by (rule reachable.after [OF reachable.start]) simp

lemma gen_speed_half: "gen_speed (1 / 2) = 15 / 2"
  by (simp add: gen_speed_def toFixed_def)

lemma gen_speed_top: "gen_speed (511 / 512) = 15"
  by (simp add: gen_speed_def toFixed_def)

subsection \<open>Blade angles\<close>

lemma angles_le_35_invariant:
  assumes "reachable st"
  shows "list_all (\<lambda>a. a \<le> 35) (bladeAngles st)"
  using assms
proof (induction rule: reachable.induct)
  case start
  show ?case by (simp add: init_def)
next
  case (after st e)
  show ?case
  proof (cases e)
    case (Tick r1 r2)
    with after.hyps(2) have "gen_speed r1 \<le> 15"
      by (simp add: gen_speed_bounds)
    with Tick show ?thesis by (simp add: tick_fields)
  next
    case (Override v)
    with after.IH show ?thesis by (simp add: override_fields)
  qed
qed

lemma no_warning_le_35:
  assumes "list_all (\<lambda>a. a \<le> 35) (bladeAngles st)"
  shows "\<not> bladeWarning st"
  using assms unfolding bladeWarning_def list_all_iff list_ex_iff by fastforce

lemma reachable_three_blades:
  assumes "reachable st"
  shows "\<exists>a b c. bladeAngles st = [a, b, c]"
  using assms
proof (induction rule: reachable.induct)
  case start
  show ?case by (simp add: init_def)
next
  case (after st e)
  then show ?case by (cases e) (simp_all add: tick_fields override_fields)
qed

text \<open>
  C3, as amended: right after a timer tick, if the wind speed the tick has set is \<open>s\<close>
  then the blade angles are exactly \<open>[2s, 2s + 5, 2s - 5]\<close>. A manual override
  sets the wind speed and leaves the blade angles as they were.
\<close>

theorem angles_follow_speed_after_tick:
  "bladeAngles (tick r1 r2 st) =
     [2 * windSpeed (tick r1 r2 st), 2 * windSpeed (tick r1 r2 st) + 5,
      2 * windSpeed (tick r1 r2 st) - 5]
   \<and> windSpeed (override v st) = v
   \<and> bladeAngles (override v st) = bladeAngles st"
  by (simp add: tick_fields override_fields)

text \<open>
  C3 as it is written fails in two reachable states. In the initial state the wind speed
  is 0 and the angles are \<open>[0, 0, 0]\<close>, not \<open>[0, 5, -5]\<close>. After a tick that drew the
  speed 7.5 and an override to 22 the wind speed is 22 and the angles are still
  \<open>[15, 20, 10]\<close>, not \<open>[44, 49, 39]\<close>.
\<close>

theorem angles_follow_speed_counterexample:
  "reachable init
   \<and> windSpeed init = 0
   \<and> bladeAngles init = [0, 0, 0]
   \<and> bladeAngles init \<noteq> [2 * windSpeed init, 2 * windSpeed init + 5, 2 * windSpeed init - 5]
   \<and> reachable (step (step init (Tick (1 / 2) (1 / 4))) (Override 22))
   \<and> windSpeed (step (step init (Tick (1 / 2) (1 / 4))) (Override 22)) = 22
   \<and> bladeAngles (step (step init (Tick (1 / 2) (1 / 4))) (Override 22)) = [15, 20, 10]
   \<and> bladeAngles (step (step init (Tick (1 / 2) (1 / 4))) (Override 22)) \<noteq>
       [2 * windSpeed (step (step init (Tick (1 / 2) (1 / 4))) (Override 22)),
        2 * windSpeed (step (step init (Tick (1 / 2) (1 / 4))) (Override 22)) + 5,
        2 * windSpeed (step (step init (Tick (1 / 2) (1 / 4))) (Override 22)) - 5]"
proof -
  let ?st = "step (step init (Tick (1 / 2) (1 / 4))) (Override 22)"
  have r: "reachable ?st"
    by (rule reachable.after [OF reachable_tick_half]) (simp add: slider_value_def)
  have i: "windSpeed init = 0" "bladeAngles init = [0, 0, 0]"
    by (simp_all add: init_def)
  have w: "windSpeed ?st = 22"
    by (simp add: override_fields)
  have b: "bladeAngles ?st = [15, 20, 10]"
    by (simp add: override_fields tick_fields gen_speed_half)
  show ?thesis
    using reachable.start r i w b by simp
qed

text \<open>
  C7: the blade-deviation warning is shown if and only if at least one of the current
  blade angles is strictly greater than 90; a reachable state has exactly three of them.
\<close>

theorem blade_warning_iff_angle_gt_90:
  "(bladeWarning st \<longleftrightarrow> (\<exists>a \<in> set (bladeAngles st). 90 < a))
   \<and> (bladeAngles st = [a, b, c] \<longrightarrow> (bladeWarning st \<longleftrightarrow> 90 < a \<or> 90 < b \<or> 90 < c))
   \<and> (reachable st \<longrightarrow> (\<exists>a b c. bladeAngles st = [a, b, c]))"
  using reachable_three_blades [of st]
  by (auto simp add: bladeWarning_def list_ex_iff)

theorem blade_warning_iff_angle_gt_90_witness:
  "bladeAngles (init\<lparr>bladeAngles := [20, 91, 15]\<rparr>) = [20, 91, 15]
   \<and> bladeWarning (init\<lparr>bladeAngles := [20, 91, 15]\<rparr>)
   \<and> bladeAngles (init\<lparr>bladeAngles := [20, 90, 15]\<rparr>) = [20, 90, 15]
   \<and> \<not> bladeWarning (init\<lparr>bladeAngles := [20, 90, 15]\<rparr>)
   \<and> reachable init
   \<and> bladeAngles init = [0, 0, 0]"
  using blade_warning_iff_angle_gt_90 [of "init\<lparr>bladeAngles := [20, 91, 15]\<rparr>" 20 91 15]
    blade_warning_iff_angle_gt_90 [of "init\<lparr>bladeAngles := [20, 90, 15]\<rparr>" 20 90 15]
    blade_warning_iff_angle_gt_90 [of init 0 0 0] reachable.start
  by (simp add: init_def)

text \<open>
  C9: in every state reachable from the initial state by timer ticks and manual
  overrides every blade angle is at most 35, so the blade-deviation warning is never
  shown.
\<close>

theorem reachable_angles_le_35_no_blade_warning:
  assumes "reachable st"
  shows "(\<forall>a \<in> set (bladeAngles st). a \<le> 35) \<and> \<not> bladeWarning st"
  using angles_le_35_invariant [OF assms] no_warning_le_35 [of st]
  by (simp add: list_all_iff)

theorem reachable_angles_le_35_no_blade_warning_witness:
  "bladeAngles (step init (Tick (511 / 512) (511 / 512))) = [30, 35, 25]
   \<and> \<not> bladeWarning (step init (Tick (511 / 512) (511 / 512)))"
  using reachable_angles_le_35_no_blade_warning [OF reachable_tick_top]
  by (simp add: tick_fields gen_speed_top)

subsection \<open>The overload warning and the override\<close>

text \<open>
  C4: the overload warning is shown if and only if the current wind speed is strictly
  greater than 20; it is not shown at exactly 20; and it is shown in the very state a
  manual override to 22 leaves, with no tick in between.
\<close>

theorem overload_iff_speed_gt_20:
  "(overloadWarning st \<longleftrightarrow> 20 < windSpeed st)
   \<and> \<not> overloadWarning (override 20 st)
   \<and> (overloadWarning (override v st) \<longleftrightarrow> 20 < v)
   \<and> overloadWarning (override 22 st)"
  by (simp add: overloadWarning_def override_fields)

text \<open>
  C10: a manual override changes the current wind speed only: the blade angles, the
  wind direction, the three history buffers and the energy accumulator are as before.
\<close>

theorem override_changes_windSpeed_only:
  "windSpeed (override v st) = v
   \<and> bladeAngles (override v st) = bladeAngles st
   \<and> windDirection (override v st) = windDirection st
   \<and> powerData (override v st) = powerData st
   \<and> windHistory (override v st) = windHistory st
   \<and> labels (override v st) = labels st
   \<and> totalEnergy (override v st) = totalEnergy st"
  by (simp add: override_fields override_buffers)

text \<open>
  C5, as amended: after the slider is set to 25 (its maximum) in a reachable state, the
  wind speed is 25, the blade angles are what they were before (never \<open>[50, 55, 45]\<close>),
  and only the overload warning is shown: there is no blade-deviation warning.
\<close>

theorem override_25_only_overload:
  assumes "reachable st"
  shows "windSpeed (override 25 st) = 25
    \<and> bladeAngles (override 25 st) = bladeAngles st
    \<and> bladeAngles (override 25 st) \<noteq> [50, 55, 45]
    \<and> overloadWarning (override 25 st)
    \<and> \<not> bladeWarning (override 25 st)"
proof -
  have le: "list_all (\<lambda>a. a \<le> 35) (bladeAngles (override 25 st))"
    using angles_le_35_invariant [OF assms] by (simp add: override_fields)
  then have "bladeAngles (override 25 st) \<noteq> [50, 55, 45]"
    by auto
  moreover have "\<not> bladeWarning (override 25 st)"
    using le by (rule no_warning_le_35)
  ultimately show ?thesis
    by (simp add: override_fields overloadWarning_def)
qed

theorem override_25_only_overload_witness:
  "windSpeed (override 25 init) = 25
    \<and> bladeAngles (override 25 init) = [0, 0, 0]
    \<and> overloadWarning (override 25 init)
    \<and> \<not> bladeWarning (override 25 init)"
proof -
  have "bladeAngles init = [0, 0, 0]" by (simp add: init_def)
  with override_25_only_overload [OF reachable.start] show ?thesis by simp
qed

text \<open>
  C5 as it is written fails: 25 is a value of the slider, and setting it in the initial
  state leaves the blade angles \<open>[0, 0, 0]\<close>, not \<open>[50, 55, 45]\<close>.
\<close>

theorem override_25_angles_counterexample:
  "slider_value 25
   \<and> reachable (step init (Override 25))
   \<and> windSpeed (step init (Override 25)) = 25
   \<and> bladeAngles (step init (Override 25)) = [0, 0, 0]
   \<and> bladeAngles (step init (Override 25)) \<noteq> [50, 55, 45]"
proof -
  have v: "slider_value 25"
    by (simp add: slider_value_def)
  have r: "reachable (step init (Override 25))"
    by (rule reachable.after [OF reachable.start]) (simp add: v)
  have b: "bladeAngles (step init (Override 25)) = [0, 0, 0]"
    by (simp add: override_fields init_def)
  have w: "windSpeed (step init (Override 25)) = 25"
    by (simp add: override_fields)
  show ?thesis
    using v r b w by simp
qed

subsection \<open>Rounding to the nearest double\<close>

text \<open>
  \<open>fl\<close> keeps the order of the non-negative reals and leaves a double as it is.
\<close>

lemma binade_range: "- int k \<le> binade k x \<and> binade k x \<le> int k"
proof (induction k arbitrary: x)
  case 0
  show ?case by simp
next
  case (Suc k)
  from Suc.IH [of "x / 2"] Suc.IH [of "x * 2"] show ?case by simp
qed

lemma binade_ge0: "1 \<le> x \<Longrightarrow> 0 \<le> binade k x"
proof (induction k arbitrary: x)
  case 0
  show ?case by simp
next
  case (Suc k)
  show ?case
  proof (cases "2 \<le> x")
    case True
    then have "0 \<le> binade k (x / 2)" by (intro Suc.IH) simp
    with True show ?thesis by simp
  next
    case False
    with Suc.prems show ?thesis by simp
  qed
qed

lemma binade_le0: "x < 2 \<Longrightarrow> binade k x \<le> 0"
proof (induction k arbitrary: x)
  case 0
  show ?case by simp
next
  case (Suc k)
  show ?case
  proof (cases "x < 1")
    case True
    then have "binade k (x * 2) \<le> 0" by (intro Suc.IH) simp
    with True show ?thesis by simp
  next
    case False
    with Suc.prems show ?thesis by simp
  qed
qed

lemma two_powi_Suc: "(2::real) powi (e + 1) = 2 * 2 powi e"
  by (simp add: power_int_add)

lemma two_powi_pred: "(2::real) powi (e - 1) = 2 powi e / 2"
  by (simp add: power_int_diff)

lemma binade_upper:
  "0 < x \<Longrightarrow> binade k x < int k \<Longrightarrow> x < 2 powi (binade k x + 1)"
proof (induction k arbitrary: x)
  case 0
  then show ?case by simp
next
  case (Suc k)
  consider "2 \<le> x" | "x < 1" | "1 \<le> x" "x < 2" by linarith
  then show ?case
  proof cases
    case 1
    with Suc.prems have "binade k (x / 2) < int k" by simp
    with Suc.prems have "x / 2 < 2 powi (binade k (x / 2) + 1)"
      by (intro Suc.IH) simp_all
    moreover have "binade (Suc k) x = binade k (x / 2) + 1"
      using 1 by simp
    ultimately show ?thesis
      using two_powi_Suc [of "binade k (x / 2) + 1"] by simp
  next
    case 2
    have le0: "binade k (x * 2) \<le> 0" using 2 by (intro binade_le0) simp
    show ?thesis
    proof (cases k)
      case 0
      with 2 show ?thesis by simp
    next
      case (Suc j)
      with le0 have "binade k (x * 2) < int k" by simp
      with Suc.prems have "x * 2 < 2 powi (binade k (x * 2) + 1)"
        by (intro Suc.IH) simp_all
      moreover have "binade (Suc k) x + 1 = binade k (x * 2)"
        using 2 by simp
      ultimately show ?thesis
        using two_powi_Suc [of "binade k (x * 2)"] by simp
    qed
  next
    case 3
    then show ?thesis by simp
  qed
qed

lemma binade_lower:
  "0 < x \<Longrightarrow> - int k < binade k x \<Longrightarrow> 2 powi (binade k x) \<le> x"
proof (induction k arbitrary: x)
  case 0
  then show ?case by simp
next
  case (Suc k)
  consider "2 \<le> x" | "x < 1" | "1 \<le> x" "x < 2" by linarith
  then show ?case
  proof cases
    case 1
    have ge0: "0 \<le> binade k (x / 2)" using 1 by (intro binade_ge0) simp
    show ?thesis
    proof (cases k)
      case 0
      with 1 show ?thesis by simp
    next
      case (Suc j)
      with ge0 have "- int k < binade k (x / 2)" by simp
      with Suc.prems have "2 powi (binade k (x / 2)) \<le> x / 2"
        by (intro Suc.IH) simp_all
      moreover have "binade (Suc k) x = binade k (x / 2) + 1"
        using 1 by simp
      ultimately show ?thesis
        using two_powi_Suc [of "binade k (x / 2)"] by simp
    qed
  next
    case 2
    with Suc.prems have "- int k < binade k (x * 2)" by simp
    with Suc.prems have "2 powi (binade k (x * 2)) \<le> x * 2"
      by (intro Suc.IH) simp_all
    moreover have "binade (Suc k) x = binade k (x * 2) - 1"
      using 2 by simp
    ultimately show ?thesis
      using two_powi_pred [of "binade k (x * 2)"] by simp
  next
    case 3
    then show ?thesis by simp
  qed
qed

lemma binade_mono: "0 < x \<Longrightarrow> x \<le> y \<Longrightarrow> binade k x \<le> binade k y"
proof (induction k arbitrary: x y)
  case 0
  show ?case by simp
next
  case (Suc k)
  consider "2 \<le> x" | "x < 1" "y < 1" | "x < 1" "1 \<le> y" | "1 \<le> x" "x < 2" by linarith
  then show ?case
  proof cases
    case 1
    with Suc.prems have "binade k (x / 2) \<le> binade k (y / 2)"
      by (intro Suc.IH) simp_all
    with 1 Suc.prems show ?thesis by simp
  next
    case 2
    with Suc.prems have "binade k (x * 2) \<le> binade k (y * 2)"
      by (intro Suc.IH) simp_all
    with 2 show ?thesis by simp
  next
    case 3
    have "binade k (x * 2) \<le> 0" using 3 by (intro binade_le0) simp
    with 3 have "binade (Suc k) x \<le> 0" by simp
    also have "0 \<le> binade (Suc k) y" using 3 by (intro binade_ge0)
    finally show ?thesis .
  next
    case 4
    then have "binade (Suc k) x = 0" by simp
    also have "0 \<le> binade (Suc k) y" using 4 Suc.prems by (intro binade_ge0) simp
    finally show ?thesis .
  qed
qed

lemma round_even_of_int: "round_even (of_int n) = n"
  by (simp add: round_even_def)

lemma round_even_bounds: "\<lfloor>y\<rfloor> \<le> round_even y \<and> round_even y \<le> \<lfloor>y\<rfloor> + 1"
  by (simp add: round_even_def Let_def)

lemma round_even_mono: "x \<le> y \<Longrightarrow> round_even x \<le> round_even y"
proof -
  assume xy: "x \<le> y"
  then have f: "\<lfloor>x\<rfloor> \<le> \<lfloor>y\<rfloor>" by (rule floor_mono)
  show ?thesis
  proof (cases "\<lfloor>x\<rfloor> = \<lfloor>y\<rfloor>")
    case True
    with xy show ?thesis
      by (auto simp add: round_even_def Let_def)
  next
    case False
    with f have "\<lfloor>x\<rfloor> + 1 \<le> \<lfloor>y\<rfloor>" by simp
    with round_even_bounds [of x] round_even_bounds [of y] show ?thesis by linarith
  qed
qed

lemma expo_range: "- 1022 \<le> expo a \<and> expo a \<le> 1100"
  using binade_range [of 1100 a] by (simp add: expo_def)

lemma expo_mono: "0 < a \<Longrightarrow> a \<le> b \<Longrightarrow> expo a \<le> expo b"
  using binade_mono [of a b 1100] by (simp add: expo_def)

lemma expo_upper:
  assumes "0 < a" and "expo a < 1100"
  shows "a < 2 powi (expo a + 1)"
proof -
  from assms(2) have "binade 1100 a < int 1100" by (simp add: expo_def)
  with assms(1) have "a < 2 powi (binade 1100 a + 1)" by (rule binade_upper)
  also have "\<dots> \<le> 2 powi (expo a + 1)"
    by (intro power_int_increasing) (simp_all add: expo_def)
  finally show ?thesis .
qed

lemma expo_lower:
  assumes "0 < a" and "- 1022 < expo a"
  shows "2 powi (expo a) \<le> a"
proof -
  from assms(2) have e: "expo a = binade 1100 a" by (simp add: expo_def max_def split: if_splits)
  with assms(2) have "- int 1100 < binade 1100 a" by simp
  with assms(1) have "2 powi (binade 1100 a) \<le> a" by (rule binade_lower)
  with e show ?thesis by simp
qed

lemma expo_le:
  assumes "0 < r" and "r < 2 powi (e + 1)" and "- 1022 \<le> e"
  shows "expo r \<le> e"
proof (rule ccontr)
  assume "\<not> expo r \<le> e"
  then have gt: "e + 1 \<le> expo r" by simp
  with assms(3) have "- 1022 < expo r" by simp
  with assms(1) have "2 powi (expo r) \<le> r" by (rule expo_lower)
  moreover have "(2::real) powi (e + 1) \<le> 2 powi (expo r)"
    using gt by (intro power_int_increasing) simp_all
  ultimately show False using assms(2) by linarith
qed

lemma ulp_pos: "0 < ulp a"
  by (simp add: ulp_def)

lemma fl_pos_eq: "0 < a \<Longrightarrow> fl a = of_int (round_even (a / ulp a)) * ulp a"
  by (simp add: fl_def)

lemma round_even_nonneg: "0 \<le> y \<Longrightarrow> 0 \<le> round_even y"
  using round_even_bounds [of y] by (simp add: order_trans [of 0 "\<lfloor>y\<rfloor>"])

lemma fl_nonneg: "0 \<le> x \<Longrightarrow> 0 \<le> fl x"
proof (cases "x = 0")
  case True
  then show ?thesis by (simp add: fl_def)
next
  case False
  assume "0 \<le> x"
  with False have x: "0 < x" by simp
  have "0 \<le> round_even (x / ulp x)"
    using x ulp_pos [of x] by (intro round_even_nonneg) simp
  with x ulp_pos [of x] show ?thesis by (simp add: fl_pos_eq)
qed

lemma ulp_hi: "2 powi (expo a + 1) = 2 ^ 53 * ulp a"
proof -
  have "expo a + 1 = 53 + (expo a - 52)" by simp
  then have "(2::real) powi (expo a + 1) = 2 powi (53 + (expo a - 52))" by (simp only:)
  also have "\<dots> = 2 powi 53 * 2 powi (expo a - 52)" by (rule power_int_add) simp
  finally show ?thesis by (simp add: ulp_def)
qed

lemma ulp_lo: "2 powi (expo a) = 2 ^ 52 * ulp a"
proof -
  have "expo a = 52 + (expo a - 52)" by simp
  then have "(2::real) powi (expo a) = 2 powi (52 + (expo a - 52))" by (simp only:)
  also have "\<dots> = 2 powi 52 * 2 powi (expo a - 52)" by (rule power_int_add) simp
  finally show ?thesis by (simp add: ulp_def)
qed

lemma mant_upper:
  assumes "0 < a" and "expo a < 1100"
  shows "round_even (a / ulp a) \<le> 2 ^ 53"
proof -
  have "a < 2 ^ 53 * ulp a"
    using expo_upper [OF assms] by (simp only: ulp_hi)
  then have "a / ulp a \<le> 2 ^ 53"
    using ulp_pos [of a] by (simp add: pos_divide_le_eq)
  then have "round_even (a / ulp a) \<le> round_even (of_int (2 ^ 53))"
    by (intro round_even_mono) simp
  then show ?thesis by (simp only: round_even_of_int)
qed

lemma mant_lower:
  assumes "0 < a" and "- 1022 < expo a"
  shows "2 ^ 52 \<le> round_even (a / ulp a)"
proof -
  have "2 ^ 52 * ulp a \<le> a"
    using expo_lower [OF assms] by (simp only: ulp_lo)
  then have "2 ^ 52 \<le> a / ulp a"
    using ulp_pos [of a] by (simp add: pos_le_divide_eq)
  then have "round_even (of_int (2 ^ 52)) \<le> round_even (a / ulp a)"
    by (intro round_even_mono) simp
  then show ?thesis by (simp only: round_even_of_int)
qed

lemma fl_upper:
  assumes "0 < a" and "expo a < 1100"
  shows "fl a \<le> 2 powi (expo a + 1)"
proof -
  have "(of_int (round_even (a / ulp a)) :: real) \<le> of_int (2 ^ 53)"
    using mant_upper [OF assms] by (simp only: of_int_le_iff)
  then have "of_int (round_even (a / ulp a)) * ulp a \<le> 2 ^ 53 * ulp a"
    using ulp_pos [of a] by simp
  then show ?thesis
    using assms(1) by (simp only: fl_pos_eq ulp_hi)
qed

lemma fl_lower:
  assumes "0 < a" and "- 1022 < expo a"
  shows "2 powi (expo a) \<le> fl a"
proof -
  have "(of_int (2 ^ 52) :: real) \<le> of_int (round_even (a / ulp a))"
    using mant_lower [OF assms] by (simp only: of_int_le_iff)
  then have "2 ^ 52 * ulp a \<le> of_int (round_even (a / ulp a)) * ulp a"
    using ulp_pos [of a] by simp
  then show ?thesis
    using assms(1) by (simp only: fl_pos_eq ulp_lo)
qed

lemma fl_mono:
  assumes "0 \<le> a" and "a \<le> b"
  shows "fl a \<le> fl b"
proof (cases "a = 0")
  case True
  with assms show ?thesis using fl_nonneg [of b] by (simp add: fl_def)
next
  case False
  with assms have a: "0 < a" and b: "0 < b" by simp_all
  have le: "expo a \<le> expo b" using a assms(2) by (rule expo_mono)
  show ?thesis
  proof (cases "expo a = expo b")
    case True
    then have u: "ulp a = ulp b" by (simp add: ulp_def)
    have "a / ulp b \<le> b / ulp b"
      using assms(2) ulp_pos [of b] by (simp add: divide_right_mono)
    then have "round_even (a / ulp b) \<le> round_even (b / ulp b)"
      by (rule round_even_mono)
    then have "(of_int (round_even (a / ulp b)) :: real) \<le> of_int (round_even (b / ulp b))"
      by (simp only: of_int_le_iff)
    then have "of_int (round_even (a / ulp b)) * ulp b \<le> of_int (round_even (b / ulp b)) * ulp b"
      using ulp_pos [of b] by simp
    with a b u show ?thesis by (simp add: fl_pos_eq)
  next
    case False
    with le have lt: "expo a < expo b" by simp
    with expo_range [of a] expo_range [of b]
    have "expo a < 1100" and "- 1022 < expo b" by linarith+
    then have "fl a \<le> 2 powi (expo a + 1)" and "2 powi (expo b) \<le> fl b"
      using a b by (simp_all add: fl_upper fl_lower)
    moreover have "(2::real) powi (expo a + 1) \<le> 2 powi (expo b)"
      using lt by (intro power_int_increasing) simp_all
    ultimately show ?thesis by linarith
  qed
qed

lemma fl_grid:
  assumes "0 < r" and "r = of_int n * 2 powi j" and "expo r - 52 \<le> j"
  shows "fl r = r"
proof -
  define k where "k = nat (j - (expo r - 52))"
  define u where "u = ulp r"
  have u: "0 < u" by (simp add: u_def ulp_pos)
  have j: "j = int k + (expo r - 52)"
    using assms(3) by (simp add: k_def)
  have "(2::real) powi j = 2 powi (int k) * 2 powi (expo r - 52)"
    unfolding j by (rule power_int_add) simp
  then have p: "(2::real) powi j = 2 ^ k * u"
    by (simp add: ulp_def u_def)
  have rr: "r = of_int (n * 2 ^ k) * u"
    by (simp add: assms(2) p)
  then have "r / u = of_int (n * 2 ^ k) * u / u" by simp
  also have "\<dots> = of_int (n * 2 ^ k)" using u by simp
  finally have "round_even (r / u) = n * 2 ^ k"
    by (simp only: round_even_of_int)
  then have "fl r = of_int (n * 2 ^ k) * u"
    using assms(1) by (simp add: fl_pos_eq u_def)
  with rr show ?thesis by simp
qed

lemma fl_idem:
  assumes "0 \<le> x"
  shows "fl (fl x) = fl x"
proof (cases "fl x = 0")
  case True
  then show ?thesis by (simp add: fl_def)
next
  case False
  with fl_nonneg [OF assms] have r: "0 < fl x" by simp
  from False assms have x: "0 < x" by (cases "x = 0") (simp_all add: fl_def)
  define m where "m = round_even (x / ulp x)"
  have eq: "fl x = of_int m * 2 powi (expo x - 52)"
    using x by (simp add: fl_pos_eq m_def ulp_def)
  have eq': "fl x = of_int m * ulp x"
    using x by (simp add: fl_pos_eq m_def)
  show ?thesis
  proof (cases "expo x < 1100")
    case False
    with expo_range [of "fl x"] have "expo (fl x) - 52 \<le> expo x - 52" by simp
    with r eq show ?thesis by (rule fl_grid)
  next
    case True
    have m53: "m \<le> 2 ^ 53" unfolding m_def using x True by (rule mant_upper)
    show ?thesis
    proof (cases "m = 2 ^ 53")
      case False
      with m53 have "m < 2 ^ 53" by simp
      then have "(of_int m :: real) < of_int (2 ^ 53)" by (simp only: of_int_less_iff)
      then have "of_int m * ulp x < (2 ^ 53 :: real) * ulp x"
        using ulp_pos [of x] by simp
      then have "fl x < 2 powi (expo x + 1)"
        by (simp only: eq' ulp_hi)
      with r have "expo (fl x) \<le> expo x"
        using expo_range [of x] by (intro expo_le) simp_all
      then have "expo (fl x) - 52 \<le> expo x - 52" by simp
      with r eq show ?thesis by (rule fl_grid)
    next
      case True
      then have eq1: "fl x = of_int 1 * 2 powi (expo x + 1)"
        by (simp add: eq' ulp_hi)
      have "(2::real) powi (expo x + 1) < 2 powi (expo x + 1 + 1)"
        by (intro power_int_strict_increasing) simp_all
      with eq1 have "fl x < 2 powi (expo x + 1 + 1)" by simp
      with r have "expo (fl x) \<le> expo x + 1"
        using expo_range [of x] by (intro expo_le) simp_all
      then have "expo (fl x) - 52 \<le> expo x + 1" by simp
      with r eq1 show ?thesis by (rule fl_grid)
    qed
  qed
qed

text \<open>The value of \<open>fl\<close> at a number whose binary exponent is known.\<close>

lemma expo_eqI:
  assumes "0 < x" and "2 powi e \<le> x" and "x < 2 powi (e + 1)" and "- 1022 \<le> e"
    and "e < 1100"
  shows "expo x = e"
proof (rule antisym)
  show "expo x \<le> e" using assms(1,3,4) by (rule expo_le)
  show "e \<le> expo x"
  proof (rule ccontr)
    assume "\<not> e \<le> expo x"
    then have lt: "expo x + 1 \<le> e" by simp
    with assms(5) have "expo x < 1100" by simp
    with assms(1) have "x < 2 powi (expo x + 1)" by (rule expo_upper)
    moreover have "(2::real) powi (expo x + 1) \<le> 2 powi e"
      using lt by (intro power_int_increasing) simp_all
    ultimately show False using assms(2) by linarith
  qed
qed

lemma fl_eval:
  assumes "0 < x" and "2 powi e \<le> x" and "x < 2 powi (e + 1)" and "- 1022 \<le> e"
    and "e < 1100"
  shows "fl x = of_int (round_even (x / 2 powi (e - 52))) * 2 powi (e - 52)"
  using assms(1) by (simp add: fl_pos_eq ulp_def expo_eqI [OF assms])

text \<open>
  The doubles of two increments: for the speed 7.5 every step is exact; for the speed
  0.2 the program holds \<open>3602879701896397 / 2^54\<close> and each step rounds.
\<close>

lemma increment_half: "fl (fl (fl (15 / 2) * 1.5) / 60) = 3 / 16"
proof -
  have a: "fl (15 / 2) = 15 / 2"
    by (subst fl_eval [where e = 2]) (simp_all add: round_even_def Let_def)
  have b: "fl (fl (15 / 2) * 1.5) = 45 / 4"
    unfolding a by (subst fl_eval [where e = 3]) (simp_all add: round_even_def Let_def)
  show ?thesis
    unfolding b by (subst fl_eval [where e = "- 3"]) (simp_all add: round_even_def Let_def)
qed

lemma increment_fifth:
  "fl (fl (fl (1 / 5) * 1.5) / 60) = 1441151880758559 / 288230376151711744"
proof -
  have a: "fl (1 / 5) = 3602879701896397 / 18014398509481984"
    by (subst fl_eval [where e = "- 3"]) (simp_all add: round_even_def Let_def)
  have b: "fl (fl (1 / 5) * 1.5) = 1351079888211149 / 4503599627370496"
    unfolding a by (subst fl_eval [where e = "- 2"]) (simp_all add: round_even_def Let_def)
  show ?thesis
    unfolding b by (subst fl_eval [where e = "- 8"]) (simp_all add: round_even_def Let_def)
qed

lemma gen_speed_64th: "gen_speed (1 / 64) = 1 / 5"
  by (simp add: gen_speed_def toFixed_def)

lemma energy_first_tick: "totalEnergy (step init (Tick (1 / 2) (1 / 4))) = 3 / 16"
proof -
  have "totalEnergy (step init (Tick (1 / 2) (1 / 4))) = fl (totalEnergy init + 3 / 16)"
    by (simp only: step.simps tick_fields gen_speed_half increment_half)
  also have "\<dots> = fl (3 / 16)"
    by (simp add: init_def)
  also have "\<dots> = 3 / 16"
    by (subst fl_eval [where e = "- 3"]) (simp_all add: round_even_def Let_def)
  finally show ?thesis .
qed

subsection \<open>The energy accumulator\<close>

lemma energy_increment_nonneg:
  assumes "0 \<le> s"
  shows "0 \<le> fl (fl (fl s * 1.5) / 60)"
proof -
  have "0 \<le> fl s" using assms by (rule fl_nonneg)
  then have "0 \<le> fl (fl s * 1.5)" by (intro fl_nonneg) simp
  then show ?thesis by (intro fl_nonneg) simp
qed

lemma fl_add_ge:
  assumes "0 \<le> a" and "fl a = a" and "0 \<le> q"
  shows "a \<le> fl (a + q)" and "0 \<le> fl (a + q)" and "fl (fl (a + q)) = fl (a + q)"
proof -
  have "fl a \<le> fl (a + q)" using assms(1,3) by (intro fl_mono) simp_all
  then show "a \<le> fl (a + q)" by (simp only: assms(2))
  show "0 \<le> fl (a + q)" using assms(1,3) by (intro fl_nonneg) simp
  show "fl (fl (a + q)) = fl (a + q)" using assms(1,3) by (intro fl_idem) simp
qed

lemma step_energy:
  assumes "valid_event e" and "0 \<le> totalEnergy st" and "fl (totalEnergy st) = totalEnergy st"
  shows "totalEnergy st \<le> totalEnergy (step st e)"
    and "0 \<le> totalEnergy (step st e)"
    and "fl (totalEnergy (step st e)) = totalEnergy (step st e)"
proof -
  have "totalEnergy st \<le> totalEnergy (step st e) \<and> 0 \<le> totalEnergy (step st e)
    \<and> fl (totalEnergy (step st e)) = totalEnergy (step st e)"
  proof (cases e)
    case (Tick r1 r2)
    with assms(1) have "0 \<le> gen_speed r1" by (simp add: gen_speed_bounds)
    then have "0 \<le> fl (fl (fl (gen_speed r1) * 1.5) / 60)"
      by (rule energy_increment_nonneg)
    from fl_add_ge [OF assms(2,3) this] Tick show ?thesis
      by (simp add: tick_fields)
  next
    case (Override v)
    with assms(2,3) show ?thesis by (simp add: override_fields)
  qed
  then show "totalEnergy st \<le> totalEnergy (step st e)"
    and "0 \<le> totalEnergy (step st e)"
    and "fl (totalEnergy (step st e)) = totalEnergy (step st e)"
    by simp_all
qed

lemma reachable_energy_double:
  assumes "reachable st"
  shows "0 \<le> totalEnergy st \<and> fl (totalEnergy st) = totalEnergy st"
  using assms
proof (induction rule: reachable.induct)
  case start
  show ?case by (simp add: init_def fl_def)
next
  case (after st e)
  then show ?case by (simp add: step_energy)
qed

lemma run_energy_mono:
  assumes "list_all valid_event es"
    and "0 \<le> totalEnergy st" and "fl (totalEnergy st) = totalEnergy st"
  shows "totalEnergy st \<le> totalEnergy (run st es)
    \<and> 0 \<le> totalEnergy (run st es)
    \<and> fl (totalEnergy (run st es)) = totalEnergy (run st es)"
  using assms(1)
proof (induction es rule: rev_induct)
  case Nil
  show ?case using assms(2,3) by (simp add: run_def)
next
  case (snoc e es)
  then have IH: "totalEnergy st \<le> totalEnergy (run st es)"
    "0 \<le> totalEnergy (run st es)"
    "fl (totalEnergy (run st es)) = totalEnergy (run st es)"
    by simp_all
  from snoc.prems have e: "valid_event e" by simp
  from step_energy [OF e IH(2,3)] IH(1) show ?case
    by (simp add: run_snoc)
qed

text \<open>
  C6, as amended: a timer tick that generated the speed \<open>s\<close> sets the energy
  accumulator to the double nearest to its old value plus the double quotient
  \<open>(s * 1.5) / 60\<close> (product, quotient and sum rounded as the program rounds them), so
  the increase is \<open>(s * 1.5) / 60\<close> up to that rounding; \<open>s\<close> is not negative, and the
  accumulator does not decrease over a tick, nor over any run of ticks and overrides.
\<close>

theorem energy_rounded_increment_mono:
  assumes "reachable st" and "0 \<le> r1" and "r1 < 1" and "list_all valid_event es"
  shows "totalEnergy (tick r1 r2 st) =
      fl (totalEnergy st + fl (fl (fl (windSpeed (tick r1 r2 st)) * 1.5) / 60))
    \<and> 0 \<le> windSpeed (tick r1 r2 st)
    \<and> totalEnergy st \<le> totalEnergy (tick r1 r2 st)
    \<and> totalEnergy st \<le> totalEnergy (run st es)"
proof -
  note inv = reachable_energy_double [OF assms(1)]
  have s: "0 \<le> gen_speed r1" using assms(2,3) by (rule gen_speed_bounds)
  have "totalEnergy st \<le> fl (totalEnergy st + fl (fl (fl (gen_speed r1) * 1.5) / 60))"
    using inv energy_increment_nonneg [OF s] by (intro fl_add_ge) simp_all
  moreover have "totalEnergy st \<le> totalEnergy (run st es)"
    using run_energy_mono [OF assms(4)] inv by simp
  ultimately show ?thesis
    using s by (simp add: tick_fields)
qed

theorem energy_rounded_increment_mono_witness:
  "totalEnergy init = 0
   \<and> windSpeed (tick (1 / 2) (1 / 4) init) = 15 / 2
   \<and> totalEnergy (tick (1 / 2) (1 / 4) init) = 3 / 16
   \<and> totalEnergy (run init [Tick (1 / 2) (1 / 4), Override 22, Tick (1 / 2) (1 / 4)]) = 3 / 8"
proof -
  let ?st1 = "step init (Tick (1 / 2) (1 / 4))"
  have v: "list_all valid_event [Tick (1 / 2) (1 / 4), Override 22, Tick (1 / 2) (1 / 4)]"
    by (simp add: slider_value_def)
  have i: "totalEnergy init = 0"
    by (simp add: init_def)
  have w: "windSpeed (tick (1 / 2) (1 / 4) init) = 15 / 2"
    by (simp add: tick_fields gen_speed_half)
  have t: "totalEnergy (tick (1 / 2) (1 / 4) init) = 3 / 16"
    using energy_first_tick by simp
  have "totalEnergy (step (step ?st1 (Override 22)) (Tick (1 / 2) (1 / 4)))
      = fl (totalEnergy ?st1 + 3 / 16)"
    by (simp only: step.simps tick_fields override_fields gen_speed_half increment_half)
  also have "\<dots> = fl (3 / 8)"
    by (simp only: energy_first_tick) simp
  also have "\<dots> = 3 / 8"
    by (subst fl_eval [where e = "- 2"]) (simp_all add: round_even_def Let_def)
  finally have e:
    "totalEnergy (run init [Tick (1 / 2) (1 / 4), Override 22, Tick (1 / 2) (1 / 4)]) = 3 / 8"
    by (simp add: run_def)
  from energy_rounded_increment_mono [OF reachable.start, of "1 / 2", OF _ _ v, of "1 / 4"]
    i w t e
  show ?thesis by simp
qed

text \<open>
  C6 as it is written fails. After a tick that drew the speed 7.5 the accumulator is
  0.1875; the next tick draws the speed 0.2 and leaves the double 0.1925. The increase
  is \<open>45035996273705 / 2^53\<close>, about 0.0050000000000000044: neither the real
  \<open>(0.2 * 1.5) / 60 = 1 / 200\<close> nor the double the program computes for
  \<^verbatim>\<open>(speed * 1.5) / 60\<close>, about 0.005000000000000001.
\<close>

theorem energy_exact_increment_counterexample:
  "reachable (step (step init (Tick (1 / 2) (1 / 4))) (Tick (1 / 64) (1 / 64)))
   \<and> windSpeed (step (step init (Tick (1 / 2) (1 / 4))) (Tick (1 / 64) (1 / 64))) = 1 / 5
   \<and> totalEnergy (step init (Tick (1 / 2) (1 / 4))) = 3 / 16
   \<and> totalEnergy (step (step init (Tick (1 / 2) (1 / 4))) (Tick (1 / 64) (1 / 64)))
       = 1733885856537641 / 9007199254740992
   \<and> fl (fl (fl (1 / 5) * 1.5) / 60) = 1441151880758559 / 288230376151711744
   \<and> totalEnergy (step (step init (Tick (1 / 2) (1 / 4))) (Tick (1 / 64) (1 / 64)))
       - totalEnergy (step init (Tick (1 / 2) (1 / 4)))
       \<noteq> (windSpeed (step (step init (Tick (1 / 2) (1 / 4))) (Tick (1 / 64) (1 / 64)))
            * 1.5) / 60
   \<and> totalEnergy (step (step init (Tick (1 / 2) (1 / 4))) (Tick (1 / 64) (1 / 64)))
       - totalEnergy (step init (Tick (1 / 2) (1 / 4)))
       \<noteq> fl (fl (fl (1 / 5) * 1.5) / 60)"
proof -
  let ?st1 = "step init (Tick (1 / 2) (1 / 4))"
  let ?st2 = "step ?st1 (Tick (1 / 64) (1 / 64))"
  have r: "reachable ?st2"
    by (rule reachable.after [OF reachable_tick_half]) simp
  have w: "windSpeed ?st2 = 1 / 5"
    by (simp add: tick_fields gen_speed_def toFixed_def)
  have e1: "totalEnergy ?st1 = 3 / 16"
    by (rule energy_first_tick)
  note q = increment_fifth
  have "totalEnergy ?st2 = fl (totalEnergy ?st1 + 1441151880758559 / 288230376151711744)"
    by (simp only: step.simps tick_fields gen_speed_64th increment_fifth)
  also have "\<dots> = fl (55484347409204511 / 288230376151711744)"
    by (simp only: e1) simp
  also have "\<dots> = 1733885856537641 / 9007199254740992"
    by (subst fl_eval [where e = "- 3"]) (simp_all add: round_even_def Let_def)
  finally have e2: "totalEnergy ?st2 = 1733885856537641 / 9007199254740992" .
  have d1: "(1733885856537641 / 9007199254740992 :: real) - 3 / 16 \<noteq> (1 / 5 * 1.5) / 60"
    by simp
  have d2: "(1733885856537641 / 9007199254740992 :: real) - 3 / 16
      \<noteq> 1441151880758559 / 288230376151711744"
    by simp
  show ?thesis
    unfolding w e1 e2 q using r d1 d2 by (intro conjI) simp_all
qed

subsection \<open>The reading of a tick\<close>

text \<open>
  C8: whatever the two random draws in \<open>[0, 1)\<close> are, a timer tick sets a wind speed in
  \<open>[0, 15]\<close> that is a whole number of tenths, and a wind direction that is an integer in
  \<open>[0, 360)\<close>.
\<close>

theorem tick_reading_in_range:
  assumes "0 \<le> r1" and "r1 < 1" and "0 \<le> r2" and "r2 < 1"
  shows "0 \<le> windSpeed (tick r1 r2 st) \<and> windSpeed (tick r1 r2 st) \<le> 15
    \<and> (\<exists>n::int. windSpeed (tick r1 r2 st) = of_int n / 10)
    \<and> (\<exists>d::int. windDirection (tick r1 r2 st) = of_int d \<and> 0 \<le> d \<and> d < 360)"
proof -
  have "\<exists>n::int. gen_speed r1 = of_int n / 10"
    using gen_speed_tenth [OF assms(1,2)] by blast
  moreover have "\<exists>d::int. gen_direction r2 = of_int d \<and> 0 \<le> d \<and> d < 360"
    using gen_direction_bounds [OF assms(3,4)] unfolding gen_direction_def by blast
  ultimately show ?thesis
    using gen_speed_bounds [OF assms(1,2)] by (simp add: tick_fields)
qed

theorem tick_reading_in_range_witness:
  "windSpeed (tick (511 / 512) (511 / 512) init) = 15
   \<and> windDirection (tick (511 / 512) (511 / 512) init) = 359
   \<and> windSpeed (tick 0 0 init) = 0
   \<and> windDirection (tick 0 0 init) = 0"
  using tick_reading_in_range [of "511 / 512" "511 / 512" init]
    tick_reading_in_range [of 0 0 init]
  by (simp add: tick_fields gen_speed_top gen_speed_def gen_direction_def toFixed_def)

end
